theory Spec2Isabelle
  imports Main "HOL-Library.Word"
begin

unbundle bit_operations_syntax

section \<open>Data model of crc32c.cpp\<close>

type_synonym u8 = "8 word"
type_synonym u32 = "32 word"
type_synonym u64 = "64 word"

text \<open>
  \<^verbatim>\<open>static uint32_t crc32cTable[8][256];\<close>
  The table is a list of 8 rows of 256 entries. Static storage is zero-initialised.
\<close>

type_synonym crc_table = "u32 list list"

definition crc32cTable_static :: crc_table where
  "crc32cTable_static = replicate 8 (replicate 256 0)"

definition table_shape :: "crc_table \<Rightarrow> bool" where
  "table_shape T = (length T = 8 \<and> list_all (\<lambda>row. length row = 256) T)"

text \<open>\<^verbatim>\<open>#define CRC32C_POLYNOMIAL 0x82f63b78\<close>\<close>

definition CRC32C_POLYNOMIAL :: u32 where
  "CRC32C_POLYNOMIAL = 0x82f63b78"

section \<open>initCrcTable\<close>

text \<open>
  One of the eight identical lines 96--103:
  \<^verbatim>\<open>crc = crc & 1 ? (crc >> 1) ^ CRC32C_POLYNOMIAL : crc >> 1;\<close>
\<close>

definition crc_shift :: "u32 \<Rightarrow> u32" where
  "crc_shift crc =
     (if crc AND 1 \<noteq> 0 then drop_bit 1 crc XOR CRC32C_POLYNOMIAL else drop_bit 1 crc)"

text \<open>The body of the first loop: \<^verbatim>\<open>crc = i;\<close> followed by the eight lines.\<close>

definition crc_of_index :: "u32 \<Rightarrow> u32" where
  "crc_of_index i =
     (let crc = i;
          crc = crc_shift crc;
          crc = crc_shift crc;
          crc = crc_shift crc;
          crc = crc_shift crc;
          crc = crc_shift crc;
          crc = crc_shift crc;
          crc = crc_shift crc;
          crc = crc_shift crc
      in crc)"

text \<open>\<^verbatim>\<open>crc32cTable[j][i] = v;\<close>\<close>

definition table_set :: "crc_table \<Rightarrow> nat \<Rightarrow> nat \<Rightarrow> u32 \<Rightarrow> crc_table" where
  "table_set T j i v = T[j := (T ! j)[i := v]]"

text \<open>
  First loop, lines 94--105:
  \<^verbatim>\<open>for (i = 0; i < 256; i++) { crc = i; ...; crc32cTable[0][i] = crc; }\<close>
\<close>

definition initCrcTable_slice0 :: "crc_table \<Rightarrow> crc_table" where
  "initCrcTable_slice0 T =
     fold (\<lambda>i T. table_set T 0 i (crc_of_index (of_nat i))) [0..<256] T"

text \<open>
  Body of the inner loop, lines 110--111, for fixed \<open>i\<close> and \<open>j\<close>; the state is the
  local \<open>crc\<close> and the table:
  \<^verbatim>\<open>crc = crc32cTable[0][crc & 0xff] ^ (crc >> 8);
  crc32cTable[j][i] = crc;\<close>
\<close>

definition column_step :: "nat \<Rightarrow> nat \<Rightarrow> u32 \<times> crc_table \<Rightarrow> u32 \<times> crc_table" where
  "column_step i j = (\<lambda>(crc, T).
     let crc = T ! 0 ! unat (crc AND 0xff) XOR drop_bit 8 crc
     in (crc, table_set T j i crc))"

text \<open>
  Body of the second outer loop, lines 108--112, for a fixed \<open>i\<close>:
  \<^verbatim>\<open>crc = crc32cTable[0][i];
  for (j = 1; j < 8; j++) { ... }\<close>
\<close>

definition initCrcTable_column :: "nat \<Rightarrow> crc_table \<Rightarrow> crc_table" where
  "initCrcTable_column i T = snd (fold (column_step i) [1..<8] (T ! 0 ! i, T))"

text \<open>The whole of \<^verbatim>\<open>initCrcTable\<close>: the first loop, then the second one over all \<open>i\<close>.\<close>

definition initCrcTable :: "crc_table \<Rightarrow> crc_table" where
  "initCrcTable T = fold initCrcTable_column [0..<256] (initCrcTable_slice0 T)"

section \<open>swCrc32c\<close>

text \<open>
  The operand \<^verbatim>\<open>*next++\<close> of \<^verbatim>\<open>crc ^ *next++\<close> is a \<^verbatim>\<open>const char\<close>: it is promoted to
  \<^verbatim>\<open>int\<close> and converted to \<^verbatim>\<open>uint64_t\<close>. On x86 \<^verbatim>\<open>char\<close> is signed, so the byte is
  sign-extended to 64 bits.
\<close>

definition char_to_u64 :: "u8 \<Rightarrow> u64" where
  "char_to_u64 c = scast c"

text \<open>
  Body of the first and of the third loop (lines 138 and 155):
  \<^verbatim>\<open>crc = crc32cTable[0][(crc ^ *next++) & 0xff] ^ (crc >> 8);\<close>
  The table entry is a \<^verbatim>\<open>uint32_t\<close>, zero-extended for the XOR with the 64-bit \<open>crc\<close>.
\<close>

definition sw_byte :: "crc_table \<Rightarrow> u64 \<Rightarrow> u8 \<Rightarrow> u64" where
  "sw_byte T crc c =
     ucast (T ! 0 ! unat ((crc XOR char_to_u64 c) AND 0xff)) XOR drop_bit 8 crc"

text \<open>
  \<^verbatim>\<open>*(uint64_t *) next\<close>: the eight bytes at \<open>next\<close> read as one word, the first byte in
  the low bits (x86 is little-endian).
\<close>

fun le_word :: "u8 list \<Rightarrow> u64" where
  "le_word [] = 0"
| "le_word (b # bs) = ucast b OR push_bit 8 (le_word bs)"

definition read_u64 :: "u8 list \<Rightarrow> u64" where
  "read_u64 bs = le_word (take 8 bs)"

text \<open>
  Lines 145--148, applied to \<open>crc\<close> after \<^verbatim>\<open>crc ^= *(uint64_t *) next\<close>. The eight table
  entries are \<^verbatim>\<open>uint32_t\<close>; their XOR is zero-extended by the assignment to \<open>crc\<close>.
\<close>

definition sw_slice8 :: "crc_table \<Rightarrow> u64 \<Rightarrow> u64" where
  "sw_slice8 T crc = ucast
     (T ! 7 ! unat (drop_bit 0 crc AND 0xff) XOR T ! 6 ! unat (drop_bit 8 crc AND 0xff)
      XOR T ! 5 ! unat (drop_bit 16 crc AND 0xff) XOR T ! 4 ! unat (drop_bit 24 crc AND 0xff)
      XOR T ! 3 ! unat (drop_bit 32 crc AND 0xff) XOR T ! 2 ! unat (drop_bit 40 crc AND 0xff)
      XOR T ! 1 ! unat (drop_bit 48 crc AND 0xff) XOR T ! 0 ! unat (drop_bit 56 crc))"

text \<open>
  First loop, lines 137--140. \<open>next\<close> is the pointer as a \<^verbatim>\<open>uintptr_t\<close>, the list holds the
  \<open>len\<close> bytes from \<open>next\<close> on:
  \<^verbatim>\<open>while (len && ((uintptr_t) next & 7) != 0) { ...; len--; }\<close>
  It returns \<open>crc\<close> and the bytes left; the pointer is not tested again.
\<close>

fun sw_align_loop :: "crc_table \<Rightarrow> u64 \<Rightarrow> u64 \<Rightarrow> u8 list \<Rightarrow> u64 \<times> u8 list" where
  "sw_align_loop T crc next [] = (crc, [])"
| "sw_align_loop T crc next (c # cs) =
     (if next AND 7 \<noteq> 0 then sw_align_loop T (sw_byte T crc c) (next + 1) cs
      else (crc, c # cs))"

text \<open>
  Second loop, lines 143--151:
  \<^verbatim>\<open>while (len >= 8) { crc ^= *(uint64_t *) next; crc = ...; next += 8; len -= 8; }\<close>
\<close>

function sw_bulk_loop :: "crc_table \<Rightarrow> u64 \<Rightarrow> u8 list \<Rightarrow> u64 \<times> u8 list" where
  "sw_bulk_loop T crc bs =
     (if 8 \<le> length bs then sw_bulk_loop T (sw_slice8 T (crc XOR read_u64 bs)) (drop 8 bs)
      else (crc, bs))"
  by pat_completeness auto
termination
  by (relation "measure (\<lambda>(T, crc, bs). length bs)") auto

declare sw_bulk_loop.simps [simp del]

text \<open>Third loop, lines 154--157: \<^verbatim>\<open>while (len) { ...; len--; }\<close>\<close>

fun sw_tail_loop :: "crc_table \<Rightarrow> u64 \<Rightarrow> u8 list \<Rightarrow> u64" where
  "sw_tail_loop T crc [] = crc"
| "sw_tail_loop T crc (c # cs) = sw_tail_loop T (sw_byte T crc c) cs"

text \<open>
  \<^verbatim>\<open>uint32_t swCrc32c(uint32_t initialCrc, const char *buf, size_t len)\<close>, with the table
  it reads as a parameter; \<open>buf\<close> is the address and \<open>bytes\<close> the \<open>len\<close> bytes stored there.
\<close>

definition swCrc32c :: "crc_table \<Rightarrow> u32 \<Rightarrow> u64 \<Rightarrow> u8 list \<Rightarrow> u32" where
  "swCrc32c T initialCrc buf bytes =
     (let crc = (ucast initialCrc :: u64) in
      if length bytes = 0 then ucast crc
      else
        let crc = crc XOR 0xFFFFFFFF;
            (crc, bs) = sw_align_loop T crc buf bytes;
            (crc, bs) = sw_bulk_loop T crc bs;
            crc = sw_tail_loop T crc bs
        in ucast (crc XOR 0xFFFFFFFF))"

text \<open>The table as \<^verbatim>\<open>init\<close> leaves it: \<^verbatim>\<open>initCrcTable()\<close> run once on the static array.\<close>

definition crc32cTable_init :: crc_table where
  "crc32cTable_init = initCrcTable crc32cTable_static"

subsection \<open>The accumulator after every iteration\<close>

text \<open>
  The same three loops, instrumented: each function lists the value of \<open>crc\<close> at the end
  of every iteration of its loop, in order.
\<close>

fun sw_align_trace :: "crc_table \<Rightarrow> u64 \<Rightarrow> u64 \<Rightarrow> u8 list \<Rightarrow> u64 list" where
  "sw_align_trace T crc next [] = []"
| "sw_align_trace T crc next (c # cs) =
     (if next AND 7 \<noteq> 0
      then sw_byte T crc c # sw_align_trace T (sw_byte T crc c) (next + 1) cs
      else [])"

function sw_bulk_trace :: "crc_table \<Rightarrow> u64 \<Rightarrow> u8 list \<Rightarrow> u64 list" where
  "sw_bulk_trace T crc bs =
     (if 8 \<le> length bs
      then sw_slice8 T (crc XOR read_u64 bs)
           # sw_bulk_trace T (sw_slice8 T (crc XOR read_u64 bs)) (drop 8 bs)
      else [])"
  by pat_completeness auto
termination
  by (relation "measure (\<lambda>(T, crc, bs). length bs)") auto

declare sw_bulk_trace.simps [simp del]

fun sw_tail_trace :: "crc_table \<Rightarrow> u64 \<Rightarrow> u8 list \<Rightarrow> u64 list" where
  "sw_tail_trace T crc [] = []"
| "sw_tail_trace T crc (c # cs) = sw_byte T crc c # sw_tail_trace T (sw_byte T crc c) cs"

text \<open>
  For a call with \<open>len \<noteq> 0\<close>: \<open>crc\<close> after \<^verbatim>\<open>crc ^= 0xFFFFFFFF\<close> on line 134, then after
  every iteration of the first, the second and the third loop.
\<close>

definition swCrc32c_trace :: "crc_table \<Rightarrow> u32 \<Rightarrow> u64 \<Rightarrow> u8 list \<Rightarrow> u64 list" where
  "swCrc32c_trace T initialCrc buf bytes =
     (if length bytes = 0 then []
      else
        let crc0 = (ucast initialCrc :: u64) XOR 0xFFFFFFFF;
            (crc1, bs1) = sw_align_loop T crc0 buf bytes;
            (crc2, bs2) = sw_bulk_loop T crc1 bs1
        in crc0 # sw_align_trace T crc0 buf bytes @ sw_bulk_trace T crc1 bs1
           @ sw_tail_trace T crc2 bs2)"

section \<open>cpuid and isSSE42Available\<close>

text \<open>
  The preprocessor branches of \<^verbatim>\<open>cpuid\<close>, in the order of the \<^verbatim>\<open>#if\<close> chain: MSVC
  (\<^verbatim>\<open>_MSC_VER\<close>), \<^verbatim>\<open>__x86_64__\<close>, \<^verbatim>\<open>__i386__\<close>, and everything else.
\<close>

datatype build_target = Msvc | X86_64 | I386 | OtherTarget

text \<open>
  The CPUID instruction of the host, which is not code of this program: from the leaf
  number in EAX to the registers (EAX, EBX, ECX, EDX).
\<close>

type_synonym cpuid_insn = "u32 \<Rightarrow> u32 \<times> u32 \<times> u32 \<times> u32"

text \<open>
  \<^verbatim>\<open>void cpuid(uint32_t op, uint32_t reg[4])\<close>, returning the array it fills. The MSVC
  branch calls \<^verbatim>\<open>__cpuid((int *)reg, 1)\<close> whatever \<open>op\<close> is; the two assembly branches
  store EAX, EBX, ECX, EDX in \<open>reg[0..3]\<close>; the last branch stores zeros.
\<close>

definition cpuid :: "build_target \<Rightarrow> cpuid_insn \<Rightarrow> u32 \<Rightarrow> u32 list" where
  "cpuid target insn op =
     (case target of
        Msvc \<Rightarrow> (case insn 1 of (a, b, c, d) \<Rightarrow> [a, b, c, d])
      | X86_64 \<Rightarrow> (case insn op of (a, b, c, d) \<Rightarrow> [a, b, c, d])
      | I386 \<Rightarrow> (case insn op of (a, b, c, d) \<Rightarrow> [a, b, c, d])
      | OtherTarget \<Rightarrow> [0, 0, 0, 0])"

text \<open>\<^verbatim>\<open>cpuid(1, reg); return ((reg[2] >> 20) & 1) == 1;\<close>\<close>

definition isSSE42Available :: "build_target \<Rightarrow> cpuid_insn \<Rightarrow> bool" where
  "isSSE42Available target insn =
     (let reg = cpuid target insn 1 in (drop_bit 20 (reg ! 2)) AND 1 = 1)"

text \<open>The ECX register of the CPUID leaf-1 query.\<close>

definition leaf1_ecx :: "cpuid_insn \<Rightarrow> u32" where
  "leaf1_ecx insn = (case insn 1 of (a, b, c, d) \<Rightarrow> c)"

section \<open>hwCrc32c\<close>

text \<open>
  Modelled from the spec: \<^verbatim>\<open>hwCrc32c\<close>, which \<^verbatim>\<open>calculateCrc\<close> calls and \<^verbatim>\<open>crc32c.h\<close>
  declares, is defined in \<^verbatim>\<open>crc32c_sse42.cpp\<close>, a file that is not among the sources.
  The spec (4.4) describes it as folding chunks of 8, 4, 2 and 1 bytes, the largest
  aligned size available first, into the accumulator with the native CRC instruction,
  under the same contract as the software engine (complement before and after). This
  definition is one step of the instruction, worded as the spec words the division
  (4.2): a shift right by one, XORed with the reversed polynomial when the low bit was
  set; here on a 64-bit register, wide enough for an 8-byte chunk.
\<close>

definition crc_shift64 :: "u64 \<Rightarrow> u64" where
  "crc_shift64 x =
     (if x AND 1 \<noteq> 0 then drop_bit 1 x XOR ucast CRC32C_POLYNOMIAL else drop_bit 1 x)"

text \<open>
  Modelled from the spec: the native CRC instruction of \<^verbatim>\<open>hwCrc32c\<close> (4.4) on a chunk of
  \<open>n\<close> bytes (\<open>n\<close> is 1, 2, 4 or 8) read little-endian: the register holds the
  accumulator XOR the chunk, and takes one step for each bit of the chunk.
\<close>

definition hw_crc32 :: "nat \<Rightarrow> u32 \<Rightarrow> u64 \<Rightarrow> u32" where
  "hw_crc32 n crc v = ucast ((crc_shift64 ^^ (8 * n)) (ucast crc XOR v))"

text \<open>
  Modelled from the spec: the chunk size of \<^verbatim>\<open>hwCrc32c\<close> (4.4), the largest of 8, 4, 2, 1
  that the bytes left and the alignment of the address allow.
\<close>

definition hw_chunk_size :: "u64 \<Rightarrow> nat \<Rightarrow> nat" where
  "hw_chunk_size addr len =
     (if 8 \<le> len \<and> addr AND 7 = 0 then 8
      else if 4 \<le> len \<and> addr AND 3 = 0 then 4
      else if 2 \<le> len \<and> addr AND 1 = 0 then 2
      else 1)"

text \<open>
  Modelled from the spec: the loop of \<^verbatim>\<open>hwCrc32c\<close> (4.4), folding chunk after chunk
  into the accumulator until no byte is left.
\<close>

function hw_fold :: "u32 \<Rightarrow> u64 \<Rightarrow> u8 list \<Rightarrow> u32" where
  "hw_fold crc addr bs =
     (if bs = [] then crc
      else
        let n = hw_chunk_size addr (length bs)
        in hw_fold (hw_crc32 n crc (le_word (take n bs))) (addr + of_nat n) (drop n bs))"
  by pat_completeness auto
termination
  by (relation "measure (\<lambda>(crc, addr, bs). length bs)")
     (auto simp: hw_chunk_size_def)

declare hw_fold.simps [simp del]

text \<open>
  Modelled from the spec: \<^verbatim>\<open>hwCrc32c(initialCrc, buf, len)\<close> (4.4), the accumulator
  complemented before the chunks are folded and again after, as in 4.3.
\<close>

definition hwCrc32c :: "u32 \<Rightarrow> u64 \<Rightarrow> u8 list \<Rightarrow> u32" where
  "hwCrc32c initialCrc buf bytes = hw_fold (initialCrc XOR 0xFFFFFFFF) buf bytes XOR 0xFFFFFFFF"

section \<open>calculateCrc\<close>

text \<open>
  The JavaScript values that reach \<^verbatim>\<open>calculateCrc\<close>, by what the function observes of
  them. A number carries its value as an unsigned 32-bit integer when it is one
  (\<^verbatim>\<open>IsUint32\<close>, \<^verbatim>\<open>Uint32Value\<close>) and the UTF-8 bytes of its text; a string carries its
  UTF-8 bytes; a buffer carries its address and contents (\<^verbatim>\<open>Buffer::Data\<close>,
  \<^verbatim>\<open>Buffer::Length\<close>); \<open>JSObject\<close> is any other object. Symbols are left out.
\<close>

datatype js_value =
    JSUndefined
  | JSNull
  | JSBoolean bool
  | JSNumber "u32 option" "u8 list"
  | JSString "u8 list"
  | JSBuffer u64 "u8 list"
  | JSObject

text \<open>\<^verbatim>\<open>info[i]\<close>: V8 yields \<open>undefined\<close> for an index beyond \<^verbatim>\<open>info.Length()\<close>.\<close>

definition info_at :: "js_value list \<Rightarrow> nat \<Rightarrow> js_value" where
  "info_at info i = (if i < length info then info ! i else JSUndefined)"

fun IsBoolean :: "js_value \<Rightarrow> bool" where
  "IsBoolean (JSBoolean b) = True"
| "IsBoolean v = False"

fun BooleanValue :: "js_value \<Rightarrow> bool" where
  "BooleanValue (JSBoolean b) = b"
| "BooleanValue v = False"

fun IsUint32 :: "js_value \<Rightarrow> bool" where
  "IsUint32 (JSNumber (Some n) text) = True"
| "IsUint32 v = False"

fun Uint32Value :: "js_value \<Rightarrow> u32" where
  "Uint32Value (JSNumber (Some n) text) = n"
| "Uint32Value v = 0"

fun Buffer_HasInstance :: "js_value \<Rightarrow> bool" where
  "Buffer_HasInstance (JSBuffer addr bytes) = True"
| "Buffer_HasInstance v = False"

fun Buffer_Data :: "js_value \<Rightarrow> u64" where
  "Buffer_Data (JSBuffer addr bytes) = addr"
| "Buffer_Data v = 0"

fun Buffer_bytes :: "js_value \<Rightarrow> u8 list" where
  "Buffer_bytes (JSBuffer addr bytes) = bytes"
| "Buffer_bytes v = []"

fun IsObject :: "js_value \<Rightarrow> bool" where
  "IsObject (JSBuffer addr bytes) = True"
| "IsObject JSObject = True"
| "IsObject v = False"

definition ascii :: "string \<Rightarrow> u8 list" where
  "ascii s = map (\<lambda>c. of_nat (of_char c)) s"

text \<open>\<^verbatim>\<open>info[1]->ToString()\<close> as UTF-8, for the values that are not objects.\<close>

fun ToString_utf8 :: "js_value \<Rightarrow> u8 list" where
  "ToString_utf8 JSUndefined = ascii ''undefined''"
| "ToString_utf8 JSNull = ascii ''null''"
| "ToString_utf8 (JSBoolean b) = (if b then ascii ''true'' else ascii ''false'')"
| "ToString_utf8 (JSNumber n text) = text"
| "ToString_utf8 (JSString text) = text"
| "ToString_utf8 v = []"

text \<open>The four \<^verbatim>\<open>Nan::ThrowTypeError\<close> calls, by their place in the function.\<close>

datatype type_error =
    InvalidNumberOfArguments
  | FlagNotBoolean
  | InitialCrcNotInteger
  | CannotComputeForObjects

datatype call_outcome = Threw type_error | Returned u32

text \<open>
  Lines 190--231, after the argument count check. \<open>T\<close> is the table at the time of the
  call, \<open>str\<close> the address at which V8 places the UTF-8 copy of a string argument.
\<close>

definition calculateCrc_body :: "crc_table \<Rightarrow> u64 \<Rightarrow> js_value list \<Rightarrow> call_outcome" where
  "calculateCrc_body T str info =
     (if \<not> IsBoolean (info_at info 0) then Threw FlagNotBoolean
      else
        let useHardwareCrc = BooleanValue (info_at info 0) in
        if length info > 2 \<and> \<not> IsUint32 (info_at info 2) then Threw InitialCrcNotInteger
        else
          let initCrc = (if length info > 2 then Uint32Value (info_at info 2) else 0) in
          let data = info_at info 1 in
          if Buffer_HasInstance data then
            Returned (if useHardwareCrc then hwCrc32c initCrc (Buffer_Data data) (Buffer_bytes data)
                      else swCrc32c T initCrc (Buffer_Data data) (Buffer_bytes data))
          else if IsObject data then Threw CannotComputeForObjects
          else
            Returned (if useHardwareCrc then hwCrc32c initCrc str (ToString_utf8 data)
                      else swCrc32c T initCrc str (ToString_utf8 data)))"

text \<open>
  \<^verbatim>\<open>NAN_METHOD(calculateCrc)\<close>. With no argument, line 184 sets the return value to 0 and
  the function goes on (there is no \<^verbatim>\<open>return\<close>): what follows either throws or sets the
  return value again. With more than three arguments it throws and returns.
\<close>

definition calculateCrc :: "crc_table \<Rightarrow> u64 \<Rightarrow> js_value list \<Rightarrow> call_outcome" where
  "calculateCrc T str info =
     (if length info < 1 then calculateCrc_body T str info
      else if length info > 3 then Threw InvalidNumberOfArguments
      else calculateCrc_body T str info)"

section \<open>Reference definitions\<close>

text \<open>
  The byte-at-a-time CRC over slice 0 of the table, on 32-bit values: one step folds one
  byte, and the whole computation complements the accumulator before and after.
\<close>

definition crc_byte_step :: "crc_table \<Rightarrow> u32 \<Rightarrow> u8 \<Rightarrow> u32" where
  "crc_byte_step T crc b = T ! 0 ! unat ((crc XOR ucast b) AND 0xff) XOR drop_bit 8 crc"

definition bytes_fold :: "crc_table \<Rightarrow> u8 list \<Rightarrow> u32 \<Rightarrow> u32" where
  "bytes_fold T bs c = fold (\<lambda>b crc. crc_byte_step T crc b) bs c"

definition crc32c_bytewise :: "crc_table \<Rightarrow> u32 \<Rightarrow> u8 list \<Rightarrow> u32" where
  "crc32c_bytewise T initial bytes =
     fold (\<lambda>b crc. crc_byte_step T crc b) bytes (initial XOR 0xFFFFFFFF) XOR 0xFFFFFFFF"

text \<open>
  The remainder of a byte value as the spec words it: 8 iterations of "if the low bit is
  set, shift right one and XOR with \<open>0x82f63b78\<close>, else shift right one".
\<close>

definition crc32c_remainder_step :: "u32 \<Rightarrow> u32" where
  "crc32c_remainder_step x = (if bit x 0 then drop_bit 1 x XOR 0x82f63b78 else drop_bit 1 x)"

definition crc32c_remainder :: "u32 \<Rightarrow> u32" where
  "crc32c_remainder i = (crc32c_remainder_step ^^ 8) i"

text \<open>
  The contents of the table in closed form: slice 0 is \<open>crc_of_index\<close>, and each further
  slice folds one zero byte into the slice before it.
\<close>

fun slice :: "nat \<Rightarrow> u32 \<Rightarrow> u32" where
  "slice 0 i = crc_of_index i"
| "slice (Suc j) i = crc_of_index (slice j i AND 0xff) XOR drop_bit 8 (slice j i)"

definition table_ok :: "crc_table \<Rightarrow> bool" where
  "table_ok T = (\<forall>j<8. \<forall>i<256. T ! j ! i = slice j (of_nat i))"

text \<open>Folding a zero byte into a 64-bit accumulator, and the bytes of such a word.\<close>

definition zstep :: "u64 \<Rightarrow> u64" where
  "zstep X = ucast (crc_of_index (ucast (X AND 0xff))) XOR drop_bit 8 X"

definition byte_of :: "nat \<Rightarrow> u64 \<Rightarrow> u32" where
  "byte_of k X = ucast (drop_bit (8 * k) X AND 0xff)"

text \<open>What \<open>k\<close> zero-byte steps make of the low \<open>k\<close> bytes of a word.\<close>

fun slsum :: "nat \<Rightarrow> u64 \<Rightarrow> u64" where
  "slsum 0 X = 0"
| "slsum (Suc k) X =
     zstep (slsum k X) XOR ucast (crc_of_index (ucast (drop_bit (8 * k) X AND 0xff)))"

text \<open>The byte step with the table entry replaced by the remainder it holds.\<close>

definition crc_direct_step :: "u32 \<Rightarrow> u8 \<Rightarrow> u32" where
  "crc_direct_step crc b = crc_of_index ((crc XOR ucast b) AND 0xff) XOR drop_bit 8 crc"

text \<open>A 64-bit accumulator whose upper 32 bits are zero.\<close>

definition fits32 :: "u64 \<Rightarrow> bool" where
  "fits32 x = (drop_bit 32 x = 0)"

section \<open>The table after initCrcTable\<close>

lemma table_set_shape: "table_shape T \<Longrightarrow> table_shape (table_set T j i v)"
  by (cases "j < length T") (auto simp: table_shape_def table_set_def list_all_length nth_list_update)

lemma table_set_nth:
  "table_shape T \<Longrightarrow> j < 8 \<Longrightarrow> i < 256 \<Longrightarrow>
   table_set T j i v ! j' ! i' = (if j' = j \<and> i' = i then v else T ! j' ! i')"
  by (auto simp: table_shape_def table_set_def list_all_length nth_list_update)

lemma slice0_fold:
  "table_shape T \<Longrightarrow> n \<le> 256 \<Longrightarrow>
   table_shape (fold (\<lambda>i T. table_set T 0 i (f i)) [0..<n] T) \<and>
   (\<forall>j i. fold (\<lambda>i T. table_set T 0 i (f i)) [0..<n] T ! j ! i =
      (if j = 0 \<and> i < n then f i else T ! j ! i))"
proof (induction n)
  case 0
  then show ?case by simp
next
  case (Suc n)
  then show ?case
    by (auto simp: table_set_shape table_set_nth)
qed

lemma unat_low_byte: "unat ((c::u32) AND 0xff) < 256"
proof -
  have "c AND 0xff \<le> 0xff" by (rule word_and_le1)
  then show ?thesis by (simp add: word_le_nat_alt)
qed

lemma column_fold:
  assumes "table_shape T" "i < 256" "\<forall>k<256. T ! 0 ! k = crc_of_index (of_nat k)"
  shows "m < 8 \<Longrightarrow>
     (case fold (column_step i) [1..<Suc m] (T ! 0 ! i, T) of (crc, T') \<Rightarrow>
        crc = slice m (of_nat i) \<and> table_shape T' \<and>
        (\<forall>j i'. T' ! j ! i' =
           (if 1 \<le> j \<and> j \<le> m \<and> i' = i then slice j (of_nat i) else T ! j ! i')))"
proof (induction m)
  case 0
  then show ?case using assms by simp
next
  case (Suc m)
  obtain crc T' where f: "fold (column_step i) [1..<Suc m] (T ! 0 ! i, T) = (crc, T')"
    by (cases "fold (column_step i) [1..<Suc m] (T ! 0 ! i, T)")
  from Suc f have ih: "crc = slice m (of_nat i)" "table_shape T'"
    "\<And>j i'. T' ! j ! i' = (if 1 \<le> j \<and> j \<le> m \<and> i' = i then slice j (of_nat i) else T ! j ! i')"
    by auto
  have row0: "T' ! 0 ! unat (crc AND 0xff) = crc_of_index (crc AND 0xff)"
    using ih(3)[of 0 "unat (crc AND 0xff)"] assms(3) unat_low_byte[of crc] by simp
  have step: "fold (column_step i) [1..<Suc (Suc m)] (T ! 0 ! i, T) =
        (slice (Suc m) (of_nat i), table_set T' (Suc m) i (slice (Suc m) (of_nat i)))"
    using f row0 ih(1) by (simp add: column_step_def Let_def)
  show ?case
    unfolding step using ih(2,3) Suc.prems assms(2)
    by (auto simp: table_set_shape table_set_nth)
qed

lemma column_props:
  assumes "table_shape T" "i < 256" "\<forall>k<256. T ! 0 ! k = crc_of_index (of_nat k)"
  shows "table_shape (initCrcTable_column i T)"
    and "\<And>j i'. initCrcTable_column i T ! j ! i' =
           (if 1 \<le> j \<and> j < 8 \<and> i' = i then slice j (of_nat i) else T ! j ! i')"
proof -
  have eq: "initCrcTable_column i T = snd (fold (column_step i) [1..<Suc 7] (T ! 0 ! i, T))"
    by (simp add: initCrcTable_column_def)
  from column_fold[OF assms, of 7]
  show "table_shape (initCrcTable_column i T)"
    unfolding eq by (auto split: prod.splits)
  fix j i'
  from column_fold[OF assms, of 7]
  show "initCrcTable_column i T ! j ! i' =
           (if 1 \<le> j \<and> j < 8 \<and> i' = i then slice j (of_nat i) else T ! j ! i')"
    unfolding eq by (auto split: prod.splits)
qed

lemma columns_fold:
  assumes "table_shape T" "\<forall>k<256. T ! 0 ! k = crc_of_index (of_nat k)"
  shows "n \<le> 256 \<Longrightarrow>
    table_shape (fold initCrcTable_column [0..<n] T) \<and>
    (\<forall>j i. fold initCrcTable_column [0..<n] T ! j ! i =
        (if 1 \<le> j \<and> j < 8 \<and> i < n then slice j (of_nat i) else T ! j ! i))"
proof (induction n)
  case 0
  then show ?case using assms by simp
next
  case (Suc n)
  let ?T = "fold initCrcTable_column [0..<n] T"
  from Suc have ih: "table_shape ?T"
    "\<And>j i. ?T ! j ! i = (if 1 \<le> j \<and> j < 8 \<and> i < n then slice j (of_nat i) else T ! j ! i)"
    by auto
  have r0: "\<forall>k<256. ?T ! 0 ! k = crc_of_index (of_nat k)"
    using ih(2)[of 0] assms(2) by simp
  have n: "n < 256" using Suc.prems by simp
  have eq: "fold initCrcTable_column [0..<Suc n] T = initCrcTable_column n ?T"
    by simp
  show ?case
    unfolding eq using column_props[OF ih(1) n r0] ih(2)
    by (auto simp: less_Suc_eq)
qed

lemma initCrcTable_props:
  assumes "table_shape T"
  shows "table_shape (initCrcTable T)"
    and "j < 8 \<Longrightarrow> i < 256 \<Longrightarrow> initCrcTable T ! j ! i = slice j (of_nat i)"
proof -
  let ?T0 = "initCrcTable_slice0 T"
  from slice0_fold[OF assms, of 256 "\<lambda>i. crc_of_index (of_nat i)"]
  have s0: "table_shape ?T0"
    "\<And>j i. ?T0 ! j ! i = (if j = 0 \<and> i < 256 then crc_of_index (of_nat i) else T ! j ! i)"
    unfolding initCrcTable_slice0_def by auto
  have r0: "\<forall>k<256. ?T0 ! 0 ! k = crc_of_index (of_nat k)"
    using s0(2) by simp
  from columns_fold[OF s0(1) r0, of 256]
  have c: "table_shape (initCrcTable T)"
    "\<And>j i. initCrcTable T ! j ! i =
        (if 1 \<le> j \<and> j < 8 \<and> i < 256 then slice j (of_nat i) else ?T0 ! j ! i)"
    unfolding initCrcTable_def by auto
  show "table_shape (initCrcTable T)" by (rule c(1))
  show "j < 8 \<Longrightarrow> i < 256 \<Longrightarrow> initCrcTable T ! j ! i = slice j (of_nat i)"
    using c(2)[of j i] s0(2)[of j i] by (cases j) auto
qed

lemma table_eqI:
  assumes "table_shape A" "table_shape B" "\<And>j i. j < 8 \<Longrightarrow> i < 256 \<Longrightarrow> A ! j ! i = B ! j ! i"
  shows "A = B"
proof (rule nth_equalityI)
  show "length A = length B" using assms by (simp add: table_shape_def)
  fix j assume "j < length A"
  then have j: "j < 8" using assms(1) by (simp add: table_shape_def)
  have la: "length (A ! j) = 256" and lb: "length (B ! j) = 256"
    using assms(1,2) j by (simp_all add: table_shape_def list_all_length)
  show "A ! j = B ! j"
    by (rule nth_equalityI) (use la lb assms(3)[OF j] in auto)
qed

lemma initCrcTable_idem: "table_shape T \<Longrightarrow> initCrcTable (initCrcTable T) = initCrcTable T"
  by (rule table_eqI) (simp_all add: initCrcTable_props)

lemma initCrcTable_const:
  "table_shape T \<Longrightarrow> table_shape T' \<Longrightarrow> initCrcTable T = initCrcTable T'"
  by (rule table_eqI) (simp_all add: initCrcTable_props)

lemma crc_shift_alt: "crc_shift a = drop_bit 1 a XOR (if odd a then CRC32C_POLYNOMIAL else 0)"
  by (cases "odd a") (simp_all add: crc_shift_def and_one_eq odd_iff_mod_2_eq_one del: drop_bit_Suc)

lemma crc_shift_xor: "crc_shift (a XOR b) = crc_shift a XOR crc_shift b"
  unfolding crc_shift_alt
  by (cases "odd a"; cases "odd b") (simp_all add: drop_bit_xor even_xor_iff ac_simps)

lemma crc_shift_0: "crc_shift 0 = 0"
  by (simp add: crc_shift_alt)

lemma crc_of_index_xor: "crc_of_index (a XOR b) = crc_of_index a XOR crc_of_index b"
  by (simp add: crc_of_index_def crc_shift_xor)

lemma crc_of_index_0: "crc_of_index 0 = 0"
  by (simp add: crc_of_index_def crc_shift_0)

lemma ff_mask: "(0xff :: 'a::len word) = mask 8"
  by (simp add: mask_eq_exp_minus_1)

lemma low_byte_scast: "((ucast (c::u32) :: u64) XOR scast (b::u8)) AND 0xff = ucast ((c XOR ucast b) AND 0xff)"
  unfolding ff_mask
  apply (rule bit_word_eqI)
  apply (auto simp: bit_simps dest: bit_imp_le_length)
  done

lemma drop8_ucast: "drop_bit 8 (ucast (c::u32) :: u64) = ucast (drop_bit 8 c)"
  apply (rule bit_word_eqI)
  apply (auto simp: bit_simps dest: bit_imp_le_length)
  done

lemma ucast_xor_32_64: "(ucast ((a::u32) XOR b) :: u64) = ucast a XOR ucast b"
  by (rule bit_word_eqI) (auto simp: bit_simps)

lemma ucast_xor_64_32: "(ucast ((a::u64) XOR b) :: u32) = ucast a XOR ucast b"
  by (rule bit_word_eqI) (auto simp: bit_simps)

lemma zstep_xor: "zstep (A XOR B) = zstep A XOR zstep B"
  by (simp add: zstep_def bit.conj_xor_distrib2 ucast_xor_64_32 ucast_xor_32_64
      crc_of_index_xor drop_bit_xor ac_simps)

lemma zstep_0: "zstep 0 = 0"
  by (simp add: zstep_def crc_of_index_0)

lemma zstep_ucast_slice: "zstep (ucast (slice j i)) = ucast (slice (Suc j) i)"
proof -
  have a: "ucast ((ucast (s::u32) :: u64) AND 0xff) = s AND 0xff" for s
    unfolding ff_mask by (rule bit_word_eqI) (auto simp: bit_simps)
  show ?thesis
    by (simp add: zstep_def a drop8_ucast ucast_xor_32_64)
qed

lemma zstep_funpow: "(zstep ^^ k) X = slsum k X XOR drop_bit (8 * k) X"
proof (induction k)
  case 0
  then show ?case by simp
next
  case (Suc k)
  have "zstep (drop_bit (8 * k) X) =
      ucast (crc_of_index (ucast (drop_bit (8 * k) X AND 0xff))) XOR drop_bit (8 * Suc k) X"
    by (simp add: zstep_def drop_bit_drop_bit add.commute del: drop_bit_Suc)
  with Suc show ?case
    by (simp add: zstep_xor ac_simps del: drop_bit_Suc)
qed

lemma slsum_8:
  "slsum (Suc (Suc (Suc (Suc (Suc (Suc (Suc (Suc 0)))))))) X =
     ucast (slice (Suc (Suc (Suc (Suc (Suc (Suc (Suc 0))))))) (byte_of 0 X)
       XOR slice (Suc (Suc (Suc (Suc (Suc (Suc 0)))))) (byte_of 1 X)
       XOR slice (Suc (Suc (Suc (Suc (Suc 0))))) (byte_of 2 X)
       XOR slice (Suc (Suc (Suc (Suc 0)))) (byte_of 3 X)
       XOR slice (Suc (Suc (Suc 0))) (byte_of 4 X)
       XOR slice (Suc (Suc 0)) (byte_of 5 X)
       XOR slice (Suc 0) (byte_of 6 X)
       XOR slice 0 (byte_of 7 X))"
proof -
  have c: "crc_of_index x = slice 0 x" for x by simp
  show ?thesis
    unfolding slsum.simps c zstep_0 zstep_xor zstep_ucast_slice ucast_xor_32_64 byte_of_def
    by (simp add: ac_simps del: slice.simps drop_bit_Suc)
qed

lemma table_ok_init: "table_shape T \<Longrightarrow> table_ok (initCrcTable T)"
  by (simp add: table_ok_def initCrcTable_props)

lemma table_ok_lookup64:
  assumes "table_ok T" "j < 8"
  shows "T ! j ! unat ((X::u64) AND 0xff) = slice j (ucast (X AND 0xff))"
proof -
  have "X AND 0xff \<le> 0xff" by (rule word_and_le1)
  then have lt: "unat (X AND 0xff) < 256" by (simp add: word_le_nat_alt)
  have "(of_nat (unat (X AND 0xff)) :: u32) = ucast (X AND 0xff)"
    by simp
  with assms lt show ?thesis by (simp add: table_ok_def)
qed

lemma table_ok_lookup32:
  assumes "table_ok T" "j < 8"
  shows "T ! j ! unat ((c::u32) AND 0xff) = slice j (c AND 0xff)"
proof -
  have lt: "unat (c AND 0xff) < 256" by (rule unat_low_byte)
  with assms show ?thesis by (simp add: table_ok_def)
qed

lemma drop56_low: "drop_bit 56 (X::u64) AND 0xff = drop_bit 56 X"
  unfolding ff_mask by (rule bit_word_eqI) (auto simp: bit_simps dest: bit_imp_le_length)

lemma slsum_8_num:
  "slsum 8 X =
     ucast (slice 7 (byte_of 0 X) XOR slice 6 (byte_of 1 X) XOR slice 5 (byte_of 2 X)
       XOR slice 4 (byte_of 3 X) XOR slice 3 (byte_of 4 X) XOR slice 2 (byte_of 5 X)
       XOR slice 1 (byte_of 6 X) XOR slice 0 (byte_of 7 X))"
proof -
  have n: "(8::nat) = Suc (Suc (Suc (Suc (Suc (Suc (Suc (Suc 0)))))))"
    "(7::nat) = Suc (Suc (Suc (Suc (Suc (Suc (Suc 0))))))"
    "(6::nat) = Suc (Suc (Suc (Suc (Suc (Suc 0)))))"
    "(5::nat) = Suc (Suc (Suc (Suc (Suc 0))))"
    "(4::nat) = Suc (Suc (Suc (Suc 0)))"
    "(3::nat) = Suc (Suc (Suc 0))"
    "(2::nat) = Suc (Suc 0)"
    "(1::nat) = Suc 0"
    by simp_all
  show ?thesis
    using slsum_8[of X] by (simp only: n)
qed

lemma sw_slice8_ok:
  assumes "table_ok T"
  shows "sw_slice8 T X = (zstep ^^ 8) X"
proof -
  have l7: "T ! 0 ! unat (drop_bit 56 X) = slice 0 (byte_of 7 X)"
    using table_ok_lookup64[OF assms, of 0 "drop_bit 56 X"]
    by (simp add: drop56_low byte_of_def)
  have l: "j < 8 \<Longrightarrow> T ! j ! unat (drop_bit (8 * k) X AND 0xff) = slice j (byte_of k X)" for j k
    using table_ok_lookup64[OF assms, of j "drop_bit (8 * k) X"]
    by (simp only: byte_of_def)
  have "sw_slice8 T X = ucast (slice 7 (byte_of 0 X) XOR slice 6 (byte_of 1 X) XOR slice 5 (byte_of 2 X)
       XOR slice 4 (byte_of 3 X) XOR slice 3 (byte_of 4 X) XOR slice 2 (byte_of 5 X)
       XOR slice 1 (byte_of 6 X) XOR slice 0 (byte_of 7 X))"
    unfolding sw_slice8_def l7
    using l[of 7 0] l[of 6 1] l[of 5 2] l[of 4 3] l[of 3 4] l[of 2 5] l[of 1 6]
    by (simp del: slice.simps drop_bit_Suc)
  also have "\<dots> = slsum 8 X"
    by (simp only: slsum_8_num)
  also have "\<dots> = (zstep ^^ 8) X"
    by (simp add: zstep_funpow del: slsum.simps)
  finally show ?thesis .
qed

lemma unat_up: "unat (ucast (x::u32) :: u64) = unat x"
proof -
  have "unat x < 2 ^ 32" using unsigned_less[of x] by simp
  then have "unat x < 2 ^ 64" by simp
  then show ?thesis
    by (simp add: unsigned_ucast_eq take_bit_nat_eq_self)
qed

lemma sw_byte_ucast: "sw_byte T (ucast c) b = ucast (crc_byte_step T c b)"
  by (simp add: sw_byte_def crc_byte_step_def char_to_u64_def low_byte_scast drop8_ucast ucast_xor_32_64 unat_up)

text \<open>The step does not depend on the sign of \<^verbatim>\<open>char\<close>: only the low byte is used.\<close>

lemma sw_byte_unsigned_char:
  "sw_byte T crc c = ucast (T ! 0 ! unat ((crc XOR ucast c) AND 0xff)) XOR drop_bit 8 crc"
proof -
  have "(crc XOR scast c) AND 0xff = (crc XOR ucast c) AND (0xff :: u64)"
    unfolding ff_mask by (rule bit_word_eqI) (auto simp: bit_simps)
  then show ?thesis by (simp add: sw_byte_def char_to_u64_def)
qed

lemma low_byte_ucast: "((ucast (c::u32) :: u64) XOR ucast (b::u8)) AND 0xff = ucast ((c XOR ucast b) AND 0xff)"
  unfolding ff_mask
  by (rule bit_word_eqI) (auto simp: bit_simps dest: bit_imp_le_length)

lemma drop8_ucast_byte: "drop_bit 8 (ucast (b::u8) :: u64) = 0"
  by (rule bit_word_eqI) (auto simp: bit_simps dest: bit_imp_le_length)

lemma zstep_byte:
  assumes "table_ok T"
  shows "zstep (ucast c XOR ucast (b::u8)) = ucast (crc_byte_step T c b)"
proof -
  have a: "(ucast (ucast ((c XOR ucast b) AND 0xff :: u32) :: u64) :: u32) = (c XOR ucast b) AND 0xff"
    by (rule bit_word_eqI) (auto simp: bit_simps)
  show ?thesis
    using table_ok_lookup32[OF assms, of 0 "c XOR ucast b"]
    by (simp add: zstep_def crc_byte_step_def low_byte_ucast drop8_ucast_byte drop8_ucast a ucast_xor_32_64)
qed

lemma le_word_bits: "bit (le_word bs) n \<Longrightarrow> n < 8 * length bs"
proof (induction bs arbitrary: n)
  case Nil
  then show ?case by simp
next
  case (Cons b bs)
  from Cons.prems have "n < 8 \<or> (8 \<le> n \<and> bit (le_word bs) (n - 8))"
    by (auto simp: bit_simps dest: bit_imp_le_length)
  then show ?case
    using Cons.IH[of "n - 8"] by auto
qed

lemma zstep_cons:
  assumes "\<And>n. bit L n \<Longrightarrow> n < 56"
  shows "zstep (C XOR (ucast (b::u8) OR push_bit 8 L)) = zstep (C XOR ucast b) XOR L"
proof -
  have a: "(C XOR (ucast b OR push_bit 8 L)) AND 0xff = (C XOR ucast b) AND 0xff"
    unfolding ff_mask by (rule bit_word_eqI) (auto simp: bit_simps)
  have b: "drop_bit 8 (C XOR (ucast b OR push_bit 8 L)) = drop_bit 8 (C XOR ucast b) XOR L"
    by (rule bit_word_eqI) (use assms in \<open>auto simp: bit_simps dest: bit_imp_le_length\<close>)
  show ?thesis
    unfolding zstep_def a b by (simp only: ac_simps)
qed

lemma zstep_chunk:
  assumes "table_ok T"
  shows "length bs \<le> 8 \<Longrightarrow>
    (zstep ^^ length bs) (ucast c XOR le_word bs) = ucast (fold (\<lambda>b crc. crc_byte_step T crc b) bs c)"
proof (induction bs arbitrary: c)
  case Nil
  then show ?case by simp
next
  case (Cons b bs)
  have bits: "bit (le_word bs) n \<Longrightarrow> n < 56" for n
    using le_word_bits[of bs n] Cons.prems by simp
  have "zstep (ucast c XOR le_word (b # bs)) = ucast (crc_byte_step T c b) XOR le_word bs"
    using zstep_cons[of "le_word bs" "ucast c" b, OF bits] zstep_byte[OF assms, of c b]
    by simp
  then show ?case
    using Cons.IH[of "crc_byte_step T c b"] Cons.prems
    by (simp add: funpow_swap1)
qed

lemma bytes_fold_append: "bytes_fold T (xs @ ys) c = bytes_fold T ys (bytes_fold T xs c)"
  by (simp add: bytes_fold_def)

lemma sw_tail_loop_fold: "sw_tail_loop T (ucast c) bs = ucast (bytes_fold T bs c)"
  by (induction bs arbitrary: c) (simp_all add: bytes_fold_def sw_byte_ucast)

lemma sw_align_loop_fold:
  "\<exists>k. sw_align_loop T (ucast c) next bs = (ucast (bytes_fold T (take k bs) c), drop k bs)"
proof (induction bs arbitrary: c "next")
  case Nil
  then show ?case by (simp add: bytes_fold_def)
next
  case (Cons b bs)
  show ?case
  proof (cases "next AND 7 \<noteq> 0")
    case True
    from Cons[of "crc_byte_step T c b" "next + 1"] obtain k where
      "sw_align_loop T (ucast (crc_byte_step T c b)) (next + 1) bs =
         (ucast (bytes_fold T (take k bs) (crc_byte_step T c b)), drop k bs)" by blast
    with True have "sw_align_loop T (ucast c) next (b # bs) =
        (ucast (bytes_fold T (take (Suc k) (b # bs)) c), drop (Suc k) (b # bs))"
      by (simp add: sw_byte_ucast bytes_fold_def)
    then show ?thesis by blast
  next
    case False
    then have "sw_align_loop T (ucast c) next (b # bs) =
        (ucast (bytes_fold T (take 0 (b # bs)) c), drop 0 (b # bs))"
      by (simp add: bytes_fold_def)
    then show ?thesis by blast
  qed
qed

lemma sw_slice8_fold:
  assumes "table_ok T" "8 \<le> length bs"
  shows "sw_slice8 T (ucast c XOR read_u64 bs) = ucast (bytes_fold T (take 8 bs) c)"
proof -
  have l: "length (take 8 bs) = 8" using assms(2) by simp
  show ?thesis
    using zstep_chunk[OF assms(1), of "take 8 bs" c] l
    by (simp add: sw_slice8_ok[OF assms(1)] read_u64_def bytes_fold_def)
qed

lemma sw_bulk_loop_fold:
  "table_ok T \<Longrightarrow> crc = ucast c \<Longrightarrow>
    \<exists>k. sw_bulk_loop T crc bs = (ucast (bytes_fold T (take k bs) c), drop k bs)"
proof (induction T crc bs arbitrary: c rule: sw_bulk_loop.induct)
  case (1 T crc bs)
  note assms = "1.prems"(1)
  note crc = "1.prems"(2)
  show ?case
  proof (cases "8 \<le> length bs")
    case True
    let ?c = "bytes_fold T (take 8 bs) c"
    have s: "sw_slice8 T (crc XOR read_u64 bs) = ucast ?c"
      unfolding crc by (rule sw_slice8_fold[OF assms True])
    from "1.IH"[OF True assms s] obtain k where
      k: "sw_bulk_loop T (sw_slice8 T (crc XOR read_u64 bs)) (drop 8 bs) =
          (ucast (bytes_fold T (take k (drop 8 bs)) ?c), drop k (drop 8 bs))" by blast
    have "take (8 + k) bs = take 8 bs @ take k (drop 8 bs)"
      by (simp add: take_add)
    then have "sw_bulk_loop T crc bs =
        (ucast (bytes_fold T (take (8 + k) bs) c), drop (8 + k) bs)"
      using True k by (subst sw_bulk_loop.simps) (simp add: bytes_fold_append add.commute)
    then show ?thesis by blast
  next
    case False
    then have "sw_bulk_loop T crc bs = (ucast (bytes_fold T (take 0 bs) c), drop 0 bs)"
      using crc by (subst sw_bulk_loop.simps) (simp add: bytes_fold_def)
    then show ?thesis by blast
  qed
qed

lemma ffff_ucast: "(ucast (c::u32) :: u64) XOR 0xFFFFFFFF = ucast (c XOR 0xFFFFFFFF)"
proof -
  have "(0xFFFFFFFF :: u64) = ucast (0xFFFFFFFF :: u32)" by simp
  then show ?thesis by (simp only: ucast_xor_32_64)
qed

lemma ucast_down_up: "(ucast (ucast (c::u32) :: u64) :: u32) = c"
  by (rule bit_word_eqI) (auto simp: bit_simps)

lemma swCrc32c_eq_bytewise:
  assumes "table_ok T"
  shows "swCrc32c T initialCrc buf bytes = crc32c_bytewise T initialCrc bytes"
proof (cases "bytes = []")
  case True
  then show ?thesis
    by (simp add: swCrc32c_def crc32c_bytewise_def ucast_down_up xor.assoc)
next
  case False
  let ?c0 = "initialCrc XOR 0xFFFFFFFF"
  obtain k1 where k1: "sw_align_loop T (ucast ?c0) buf bytes =
      (ucast (bytes_fold T (take k1 bytes) ?c0), drop k1 bytes)"
    using sw_align_loop_fold by blast
  let ?c1 = "bytes_fold T (take k1 bytes) ?c0"
  obtain k2 where k2: "sw_bulk_loop T (ucast ?c1) (drop k1 bytes) =
      (ucast (bytes_fold T (take k2 (drop k1 bytes)) ?c1), drop k2 (drop k1 bytes))"
    using sw_bulk_loop_fold[OF assms refl] by blast
  let ?c2 = "bytes_fold T (take k2 (drop k1 bytes)) ?c1"
  have "bytes_fold T (drop k2 (drop k1 bytes)) ?c2 =
      bytes_fold T ((take k1 bytes @ take k2 (drop k1 bytes)) @ drop k2 (drop k1 bytes)) ?c0"
    by (simp only: bytes_fold_append)
  also have "(take k1 bytes @ take k2 (drop k1 bytes)) @ drop k2 (drop k1 bytes) = bytes"
    by (simp only: append_assoc append_take_drop_id)
  finally have tot: "bytes_fold T (drop k2 (drop k1 bytes)) ?c2 = bytes_fold T bytes ?c0" .
  have "swCrc32c T initialCrc buf bytes =
      ucast ((ucast (bytes_fold T (drop k2 (drop k1 bytes)) ?c2) :: u64) XOR 0xFFFFFFFF)"
    using False unfolding swCrc32c_def Let_def ffff_ucast k1 prod.case k2 sw_tail_loop_fold
    by simp
  then show ?thesis
    unfolding tot ffff_ucast ucast_down_up
    by (simp add: crc32c_bytewise_def bytes_fold_def)
qed


lemma table_shape_static: "table_shape crc32cTable_static"
  by (simp add: table_shape_def crc32cTable_static_def list_all_length)

lemma table_ok_crc32cTable_init: "table_ok crc32cTable_init"
  unfolding crc32cTable_init_def by (rule table_ok_init[OF table_shape_static])

lemma crc32c_remainder_step_eq: "crc32c_remainder_step = crc_shift"
  by (rule ext) (simp add: crc32c_remainder_step_def crc_shift_alt CRC32C_POLYNOMIAL_def bit_0)

lemma crc32c_remainder_eq: "crc32c_remainder i = crc_of_index i"
  by (simp add: crc32c_remainder_def crc32c_remainder_step_eq crc_of_index_def eval_nat_numeral)

lemma crc32c_bytewise_append:
  "crc32c_bytewise T (crc32c_bytewise T c xs) ys = crc32c_bytewise T c (xs @ ys)"
  by (simp add: crc32c_bytewise_def xor.assoc)

section \<open>Evaluation without the table\<close>

lemma crc_byte_step_direct: "table_ok T \<Longrightarrow> crc_byte_step T c b = crc_direct_step c b"
  using table_ok_lookup32[of T 0 "c XOR ucast b"]
  by (simp add: crc_byte_step_def crc_direct_step_def)

lemma bytes_fold_direct:
  "table_ok T \<Longrightarrow> bytes_fold T bs c = fold (\<lambda>b crc. crc_direct_step crc b) bs c"
  by (induction bs arbitrary: c) (simp_all add: bytes_fold_def crc_byte_step_direct)

lemma swCrc32c_direct:
  "table_ok T \<Longrightarrow> swCrc32c T i buf bs = fold (\<lambda>b crc. crc_direct_step crc b) bs (i XOR 0xFFFFFFFF) XOR 0xFFFFFFFF"
  using bytes_fold_direct[of T bs "i XOR 0xFFFFFFFF"]
  by (simp add: swCrc32c_eq_bytewise crc32c_bytewise_def bytes_fold_def)

lemmas crc_eval = ascii_def crc_direct_step_def crc_of_index_def crc_shift_def CRC32C_POLYNOMIAL_def

lemma bit20: "(drop_bit 20 (x::u32) AND 1 = 1) = bit x 20"
  by (simp add: and_one_eq bit_iff_odd_drop_bit odd_iff_mod_2_eq_one)

lemma hwCrc32c_Nil: "hwCrc32c c buf [] = c"
  by (simp add: hwCrc32c_def hw_fold.simps xor.assoc)

lemma swCrc32c_Nil: "swCrc32c T c buf [] = c"
  by (simp add: swCrc32c_def ucast_down_up)

section \<open>The accumulator stays within 32 bits\<close>

lemma fits32_ucast: "fits32 (ucast (c::u32))"
  unfolding fits32_def by (rule bit_word_eqI) (auto simp: bit_simps dest: bit_imp_le_length)

lemma fits32_D: "fits32 x \<Longrightarrow> x = ucast (ucast x :: u32)"
proof -
  assume "fits32 x"
  then have z: "\<And>n. \<not> bit (drop_bit 32 x) n" by (simp add: fits32_def)
  show ?thesis
  proof (rule bit_word_eqI)
    fix n assume n: "n < LENGTH(64)"
    show "bit x n = bit (ucast (ucast x :: u32) :: u64) n"
    proof (cases "n < 32")
      case True
      then show ?thesis using n by (simp add: bit_simps)
    next
      case False
      then have "\<not> bit x n" using z[of "n - 32"] n by (simp add: bit_simps)
      then show ?thesis using False by (simp add: bit_simps)
    qed
  qed
qed

lemma fits32_sw_byte: "fits32 crc \<Longrightarrow> fits32 (sw_byte T crc c)"
  using fits32_D[of crc] sw_byte_ucast[of T "ucast crc" c] fits32_ucast by metis

lemma fits32_sw_slice8: "fits32 (sw_slice8 T X)"
  unfolding sw_slice8_def by (rule fits32_ucast)

lemma sw_align_trace_fits:
  "fits32 crc \<Longrightarrow> x \<in> set (sw_align_trace T crc next bs) \<Longrightarrow> fits32 x"
proof (induction bs arbitrary: crc "next")
  case Nil
  then show ?case by simp
next
  case (Cons b bs)
  from Cons.prems(2) have "x = sw_byte T crc b \<or>
      x \<in> set (sw_align_trace T (sw_byte T crc b) (next + 1) bs)"
    by (simp split: if_splits)
  then show ?case
    using Cons.IH[OF fits32_sw_byte[OF Cons.prems(1)]] fits32_sw_byte[OF Cons.prems(1)]
    by blast
qed

lemma sw_tail_trace_fits:
  "fits32 crc \<Longrightarrow> x \<in> set (sw_tail_trace T crc bs) \<Longrightarrow> fits32 x"
proof (induction bs arbitrary: crc)
  case Nil
  then show ?case by simp
next
  case (Cons b bs)
  from Cons.prems(2) have "x = sw_byte T crc b \<or>
      x \<in> set (sw_tail_trace T (sw_byte T crc b) bs)"
    by simp
  then show ?case
    using Cons.IH[OF fits32_sw_byte[OF Cons.prems(1)]] fits32_sw_byte[OF Cons.prems(1)]
    by blast
qed

lemma sw_bulk_trace_fits: "x \<in> set (sw_bulk_trace T crc bs) \<Longrightarrow> fits32 x"
proof (induction T crc bs rule: sw_bulk_trace.induct)
  case (1 T crc bs)
  from "1.prems" have "8 \<le> length bs \<and> (x = sw_slice8 T (crc XOR read_u64 bs) \<or>
      x \<in> set (sw_bulk_trace T (sw_slice8 T (crc XOR read_u64 bs)) (drop 8 bs)))"
    by (subst (asm) sw_bulk_trace.simps) (simp split: if_splits)
  then show ?case
    using "1.IH" fits32_sw_slice8 by blast
qed

lemma sw_align_trace_last:
  "last (crc # sw_align_trace T crc next bs) = fst (sw_align_loop T crc next bs)"
  by (induction bs arbitrary: crc "next") simp_all

lemma sw_tail_trace_last:
  "last (crc # sw_tail_trace T crc bs) = sw_tail_loop T crc bs"
  by (induction bs arbitrary: crc) simp_all

lemma sw_bulk_trace_last:
  "last (crc # sw_bulk_trace T crc bs) = fst (sw_bulk_loop T crc bs)"
proof (induction T crc bs rule: sw_bulk_trace.induct)
  case (1 T crc bs)
  then show ?case
    by (subst sw_bulk_trace.simps, subst sw_bulk_loop.simps) simp
qed

lemma last_cons_append: "last (x # xs @ ys) = last (last (x # xs) # ys)"
  by (cases ys) simp_all

lemma fits32_xor_ffff: "fits32 x \<Longrightarrow> (ucast (ucast (x XOR 0xFFFFFFFF) :: u32) :: u64) = x XOR 0xFFFFFFFF"
proof -
  assume "fits32 x"
  then obtain c :: u32 where x: "x = ucast c" using fits32_D by blast
  show ?thesis
    unfolding x ffff_ucast ucast_down_up ..
qed

section \<open>The bit-serial instruction against the table\<close>

lemma crc_shift64_alt:
  "crc_shift64 a = drop_bit 1 a XOR (if odd a then ucast CRC32C_POLYNOMIAL else 0)"
  by (cases "odd a") (simp_all add: crc_shift64_def and_one_eq odd_iff_mod_2_eq_one del: drop_bit_Suc)

lemma crc_shift64_xor: "crc_shift64 (a XOR b) = crc_shift64 a XOR crc_shift64 b"
  unfolding crc_shift64_alt
  by (cases "odd a"; cases "odd b") (simp_all add: drop_bit_xor even_xor_iff ac_simps)

lemma drop1_ucast: "drop_bit n (ucast (c::u32) :: u64) = ucast (drop_bit n c)"
  by (rule bit_word_eqI) (auto simp: bit_simps dest: bit_imp_le_length)

lemma odd_ucast: "odd (ucast (c::u32) :: u64) = odd c"
proof -
  have "bit (ucast c :: u64) 0 = bit c 0" by (simp add: bit_simps)
  then show ?thesis by (simp add: bit_0)
qed

lemma crc_shift64_ucast: "crc_shift64 (ucast c) = ucast (crc_shift c)"
  unfolding crc_shift64_alt crc_shift_alt
  by (simp add: drop1_ucast odd_ucast ucast_xor_32_64 del: drop_bit_Suc)

lemma crc_shift64_funpow_xor:
  "(crc_shift64 ^^ k) (a XOR b) = (crc_shift64 ^^ k) a XOR (crc_shift64 ^^ k) b"
  by (induction k) (simp_all add: crc_shift64_xor)

lemma crc_shift64_funpow_ucast: "(crc_shift64 ^^ k) (ucast c) = ucast ((crc_shift ^^ k) c)"
  by (induction k) (simp_all add: crc_shift64_ucast)

lemma crc_of_index_funpow: "crc_of_index i = (crc_shift ^^ 8) i"
  by (simp add: crc_of_index_def eval_nat_numeral)

lemma crc_shift64_funpow_low_zero:
  "(\<And>n. n < k \<Longrightarrow> \<not> bit Y n) \<Longrightarrow> (crc_shift64 ^^ k) Y = drop_bit k Y"
proof (induction k arbitrary: Y)
  case 0
  then show ?case by simp
next
  case (Suc k)
  have ev: "even Y" using Suc.prems[of 0] by (simp add: bit_0)
  then have st: "crc_shift64 Y = drop_bit 1 Y" by (simp add: crc_shift64_alt del: drop_bit_Suc)
  have lo: "\<not> bit (drop_bit 1 Y) n" if "n < k" for n
    using Suc.prems[of "Suc n"] that by (simp add: bit_drop_bit_eq del: drop_bit_Suc)
  have "(crc_shift64 ^^ Suc k) Y = (crc_shift64 ^^ k) (crc_shift64 Y)"
    by (simp add: funpow_swap1)
  also have "\<dots> = drop_bit k (drop_bit 1 Y)"
    unfolding st using lo by (rule Suc.IH)
  also have "\<dots> = drop_bit (Suc k) Y"
    by (simp add: drop_bit_drop_bit del: drop_bit_Suc)
  finally show ?case .
qed

lemma split_low_byte:
  "(X::u64) = ucast (ucast (X AND 0xff) :: u32) XOR push_bit 8 (drop_bit 8 X)"
  unfolding ff_mask
  by (rule bit_word_eqI) (auto simp: bit_simps)

lemma crc_shift64_8: "(crc_shift64 ^^ 8) X = zstep X"
proof -
  have hi: "(crc_shift64 ^^ 8) (push_bit 8 (drop_bit 8 X)) = drop_bit 8 (push_bit 8 (drop_bit 8 X))"
    by (rule crc_shift64_funpow_low_zero) (simp add: bit_simps)
  have dp: "drop_bit 8 (push_bit 8 (drop_bit 8 X)) = drop_bit 8 X"
    by (rule bit_word_eqI) (auto simp: bit_simps dest: bit_imp_le_length)
  have "(crc_shift64 ^^ 8) X =
      (crc_shift64 ^^ 8) (ucast (ucast (X AND 0xff) :: u32))
        XOR (crc_shift64 ^^ 8) (push_bit 8 (drop_bit 8 X))"
    by (subst split_low_byte[of X]) (simp only: crc_shift64_funpow_xor)
  then show ?thesis
    by (simp only: hi dp crc_shift64_funpow_ucast zstep_def crc_of_index_funpow)
qed

lemma crc_shift64_bytes: "(crc_shift64 ^^ (8 * n)) X = (zstep ^^ n) X"
proof -
  have "crc_shift64 ^^ 8 = zstep" by (rule ext) (rule crc_shift64_8)
  then show ?thesis by (simp add: funpow_mult[symmetric])
qed

lemma hw_crc32_chunk:
  assumes "table_ok T" "length bs = n" "n \<le> 8"
  shows "hw_crc32 n crc (le_word bs) = bytes_fold T bs crc"
  using zstep_chunk[OF assms(1), of bs crc] assms(2,3)
  by (simp add: hw_crc32_def crc_shift64_bytes bytes_fold_def ucast_down_up)

lemma hw_chunk_size_bounds:
  "0 < len \<Longrightarrow> 1 \<le> hw_chunk_size addr len \<and> hw_chunk_size addr len \<le> 8
     \<and> hw_chunk_size addr len \<le> len"
  by (simp add: hw_chunk_size_def)

lemma hw_fold_bytes:
  "table_ok T \<Longrightarrow> hw_fold crc addr bs = bytes_fold T bs crc"
proof (induction crc addr bs rule: hw_fold.induct)
  case (1 crc addr bs)
  show ?case
  proof (cases "bs = []")
    case True
    then show ?thesis by (subst hw_fold.simps) (simp add: bytes_fold_def)
  next
    case False
    let ?n = "hw_chunk_size addr (length bs)"
    from False have b: "1 \<le> ?n" "?n \<le> 8" "?n \<le> length bs"
      using hw_chunk_size_bounds[of "length bs" addr] by simp_all
    have l: "length (take ?n bs) = ?n" using b(3) by simp
    have c: "hw_crc32 ?n crc (le_word (take ?n bs)) = bytes_fold T (take ?n bs) crc"
      by (rule hw_crc32_chunk[OF "1.prems" l b(2)])
    have "hw_fold crc addr bs =
        hw_fold (hw_crc32 ?n crc (le_word (take ?n bs))) (addr + of_nat ?n) (drop ?n bs)"
      using False by (subst hw_fold.simps) (simp add: Let_def)
    also have "\<dots> = bytes_fold T (drop ?n bs) (bytes_fold T (take ?n bs) crc)"
      using "1.IH"[OF False refl "1.prems"] c by simp
    also have "\<dots> = bytes_fold T (take ?n bs @ drop ?n bs) crc"
      by (simp only: bytes_fold_append)
    finally show ?thesis by simp
  qed
qed

lemma hwCrc32c_eq_bytewise:
  "table_ok T \<Longrightarrow> hwCrc32c initialCrc buf bytes = crc32c_bytewise T initialCrc bytes"
  by (simp add: hwCrc32c_def hw_fold_bytes crc32c_bytewise_def bytes_fold_def)

section \<open>Claims\<close>

text \<open>
  C1. For the 9 ASCII bytes "123456789" and initial CRC 0, \<open>swCrc32c\<close> returns
  \<open>0xE3069283\<close> wherever the buffer lies, and so does the hardware engine.
\<close>

theorem crc32c_known_vector:
  "swCrc32c crc32cTable_init 0 buf (ascii ''123456789'') = 0xE3069283 \<and>
   hwCrc32c 0 buf' (ascii ''123456789'') = 0xE3069283"
proof -
  have v: "crc32c_bytewise crc32cTable_init 0 (ascii ''123456789'') = 0xE3069283"
    using swCrc32c_direct[OF table_ok_crc32cTable_init, of 0 0 "ascii ''123456789''"]
    by (simp add: swCrc32c_eq_bytewise[OF table_ok_crc32cTable_init] crc_eval)
  show ?thesis
    by (simp only: swCrc32c_eq_bytewise[OF table_ok_crc32cTable_init]
        hwCrc32c_eq_bytewise[OF table_ok_crc32cTable_init] v)
qed

text \<open>
  C2. For every initial CRC, every byte sequence and every address of the buffer,
  \<open>swCrc32c\<close> on the initialised table, with its byte-wise prologue up to 8-byte
  alignment, its slicing-by-8 loop and its byte-wise remainder, returns the value of the
  plain byte-at-a-time CRC over slice 0 with the accumulator complemented before and
  after.
\<close>

theorem swCrc32c_refines_bytewise:
  "swCrc32c crc32cTable_init initialCrc buf bytes =
   crc32c_bytewise crc32cTable_init initialCrc bytes"
  by (rule swCrc32c_eq_bytewise[OF table_ok_crc32cTable_init])

text \<open>
  C3. After \<open>initCrcTable\<close>, for every byte value \<open>i\<close>, slice 0 holds the remainder of
  \<open>i\<close> under 8 iterations of the shift-and-XOR step with \<open>0x82f63b78\<close>, and for every
  \<open>j\<close> from 1 to 7, \<open>table[j][i] = table[0][table[j-1][i] & 0xFF] ^ (table[j-1][i] >> 8)\<close>.
\<close>

theorem initCrcTable_entries:
  assumes "table_shape T" and "i < 256" and "1 \<le> j" and "j \<le> 7"
  shows "initCrcTable T ! 0 ! i = crc32c_remainder (of_nat i) \<and>
         initCrcTable T ! j ! i =
           initCrcTable T ! 0 ! unat (initCrcTable T ! (j - 1) ! i AND 0xFF)
             XOR drop_bit 8 (initCrcTable T ! (j - 1) ! i)"
proof -
  obtain j' where j: "j = Suc j'" using assms(3) by (cases j) auto
  have ok: "table_ok (initCrcTable T)" by (rule table_ok_init[OF assms(1)])
  have a: "initCrcTable T ! 0 ! i = crc32c_remainder (of_nat i)"
    using initCrcTable_props(2)[OF assms(1), of 0 i] assms(2)
    by (simp add: crc32c_remainder_eq)
  have b: "initCrcTable T ! j' ! i = slice j' (of_nat i)"
    using initCrcTable_props(2)[OF assms(1), of j' i] assms(2,4) j by simp
  have c: "initCrcTable T ! j ! i = slice (Suc j') (of_nat i)"
    using initCrcTable_props(2)[OF assms(1), of j i] assms(2,4) j by simp
  have d: "initCrcTable T ! 0 ! unat (slice j' (of_nat i) AND 0xFF) =
      crc_of_index (slice j' (of_nat i) AND 0xFF)"
    using table_ok_lookup32[OF ok, of 0 "slice j' (of_nat i)"] by simp
  show ?thesis
    using a c by (simp add: j b d)
qed

theorem initCrcTable_entries_witness:
  "table_shape crc32cTable_static \<and> (255::nat) < 256 \<and> (1::nat) \<le> 7 \<and> (7::nat) \<le> 7 \<and>
   initCrcTable crc32cTable_static ! 0 ! 255 = crc32c_remainder (of_nat 255) \<and>
   initCrcTable crc32cTable_static ! 7 ! 255 =
     initCrcTable crc32cTable_static ! 0
       ! unat (initCrcTable crc32cTable_static ! (7 - 1) ! 255 AND 0xFF)
       XOR drop_bit 8 (initCrcTable crc32cTable_static ! (7 - 1) ! 255)"
  using initCrcTable_entries[OF table_shape_static, of 255 7] table_shape_static by simp

text \<open>
  C4. For every initial CRC and every buffer, the hardware engine returns the value of
  the software engine, wherever each buffer lies; and \<open>calculateCrc\<close> with the flag true
  has the outcome of \<open>calculateCrc\<close> with the flag false on the same other arguments.
\<close>

theorem hwCrc32c_eq_swCrc32c:
  "hwCrc32c initialCrc buf bytes = swCrc32c crc32cTable_init initialCrc buf' bytes \<and>
   calculateCrc crc32cTable_init str (JSBoolean True # args) =
     calculateCrc crc32cTable_init str (JSBoolean False # args)"
proof -
  have e: "hwCrc32c i a bs = swCrc32c crc32cTable_init i a' bs" for i a a' bs
    by (simp only: hwCrc32c_eq_bytewise[OF table_ok_crc32cTable_init]
        swCrc32c_eq_bytewise[OF table_ok_crc32cTable_init])
  have e': "hwCrc32c i a bs = swCrc32c crc32cTable_init i a bs" for i a bs
    by (rule e)
  have c: "calculateCrc crc32cTable_init str (JSBoolean True # args) =
      calculateCrc crc32cTable_init str (JSBoolean False # args)"
    by (simp add: calculateCrc_def calculateCrc_body_def info_at_def Let_def e')
  show ?thesis
    using e[of initialCrc buf bytes buf'] c by (rule conjI)
qed

text \<open>
  C5. For every initial CRC, \<open>swCrc32c\<close> on a zero-length buffer returns the initial value
  unchanged; and \<open>calculateCrc\<close> on an empty buffer or an empty string, with no initial
  CRC given, returns 0 for both values of the flag.
\<close>

theorem swCrc32c_empty:
  "swCrc32c T initialCrc buf [] = initialCrc \<and>
   calculateCrc T str [JSBoolean useHardware, JSBuffer addr []] = Returned 0 \<and>
   calculateCrc T str [JSBoolean useHardware, JSString []] = Returned 0"
  by (simp add: swCrc32c_Nil hwCrc32c_Nil calculateCrc_def calculateCrc_body_def info_at_def Let_def)

text \<open>
  C6. Chaining is exact concatenation: for every byte sequence and every split of it,
  the CRC of the second segment started from the CRC of the first (itself started from
  0) is the CRC of the whole sequence started from 0, wherever the buffers lie.
\<close>

theorem swCrc32c_chaining:
  "swCrc32c crc32cTable_init (swCrc32c crc32cTable_init 0 buf1 first) buf2 second =
   swCrc32c crc32cTable_init 0 buf (first @ second)"
  by (simp only: swCrc32c_eq_bytewise[OF table_ok_crc32cTable_init] crc32c_bytewise_append)

text \<open>
  C7, the missing data argument. Called with the flag alone, \<open>calculateCrc\<close> throws
  nothing: the absent argument reads as \<open>undefined\<close>, which is not an object, and the
  function returns the checksum of the text "undefined".
\<close>

theorem calculateCrc_missing_data:
  "calculateCrc crc32cTable_init 0 [JSBoolean False] = Returned 0x52982494"
  by (simp add: calculateCrc_def calculateCrc_body_def info_at_def
      swCrc32c_direct[OF table_ok_crc32cTable_init] crc_eval)

text \<open>
  C7, the two other scenarios. A flag that is not a boolean, and a third argument that
  is not an unsigned 32-bit integer, each make \<open>calculateCrc\<close> throw a type error, so
  that no checksum is returned.
\<close>

theorem calculateCrc_invalid_arguments:
  "(\<not> IsBoolean (info_at info 0) \<longrightarrow>
      calculateCrc T str info =
        (if length info > 3 then Threw InvalidNumberOfArguments else Threw FlagNotBoolean)) \<and>
   (length info > 2 \<and> \<not> IsUint32 (info_at info 2) \<longrightarrow>
      calculateCrc T str info =
        (if length info > 3 then Threw InvalidNumberOfArguments
         else if IsBoolean (info_at info 0) then Threw InitialCrcNotInteger
         else Threw FlagNotBoolean))"
  by (auto simp: calculateCrc_def calculateCrc_body_def)

theorem calculateCrc_invalid_arguments_witness:
  "\<not> IsBoolean (info_at [JSNumber (Some 1) (ascii ''1''), JSString (ascii ''abc'')] 0) \<and>
   calculateCrc crc32cTable_init 0 [JSNumber (Some 1) (ascii ''1''), JSString (ascii ''abc'')]
     = Threw FlagNotBoolean \<and>
   length [JSBoolean True, JSString (ascii ''abc''), JSNumber None (ascii ''-1'')] > 2 \<and>
   \<not> IsUint32 (info_at [JSBoolean True, JSString (ascii ''abc''), JSNumber None (ascii ''-1'')] 2) \<and>
   calculateCrc crc32cTable_init 0 [JSBoolean True, JSString (ascii ''abc''), JSNumber None (ascii ''-1'')]
     = Threw InitialCrcNotInteger"
  using calculateCrc_invalid_arguments[of "[JSNumber (Some 1) (ascii ''1''), JSString (ascii ''abc'')]" crc32cTable_init 0]
    calculateCrc_invalid_arguments[of "[JSBoolean True, JSString (ascii ''abc''), JSNumber None (ascii ''-1'')]" crc32cTable_init 0]
  by (simp add: info_at_def)

text \<open>
  C8. Where the CPUID query exists, \<open>isSSE42Available\<close> is true exactly when bit 20 of
  ECX of leaf 1 is set; elsewhere it is false; and it depends on nothing but that bit,
  so every call on one host returns the same value.
\<close>

theorem isSSE42Available_bit20:
  "(target \<noteq> OtherTarget \<longrightarrow> isSSE42Available target insn = bit (leaf1_ecx insn) 20) \<and>
   isSSE42Available OtherTarget insn = False \<and>
   (bit (leaf1_ecx insn) 20 = bit (leaf1_ecx insn') 20 \<longrightarrow>
      isSSE42Available target insn = isSSE42Available target insn')"
  by (cases target; cases "insn 1"; cases "insn' 1")
     (simp_all add: isSSE42Available_def cpuid_def leaf1_ecx_def bit20)

theorem isSSE42Available_bit20_witness:
  "X86_64 \<noteq> OtherTarget \<and>
   isSSE42Available X86_64 (\<lambda>op. (0, 0, 0x100000, 0)) = bit (leaf1_ecx (\<lambda>op. (0, 0, 0x100000, 0))) 20 \<and>
   isSSE42Available X86_64 (\<lambda>op. (0, 0, 0x100000, 0)) \<and>
   bit (leaf1_ecx (\<lambda>op. (0, 0, 0x100000, 0))) 20 = bit (leaf1_ecx (\<lambda>op. (1, 2, 0x100001, 3))) 20 \<and>
   isSSE42Available X86_64 (\<lambda>op. (0, 0, 0x100000, 0)) = isSSE42Available X86_64 (\<lambda>op. (1, 2, 0x100001, 3))"
  using isSSE42Available_bit20[of X86_64 "\<lambda>op. (0, 0, 0x100000, 0)" "\<lambda>op. (1, 2, 0x100001, 3)"]
  by (auto simp: leaf1_ecx_def bit_iff_odd_drop_bit)

text \<open>
  C9. \<open>initCrcTable\<close> is idempotent: a second run leaves the whole table as the first
  run made it, and so every result of \<open>swCrc32c\<close>.
\<close>

theorem initCrcTable_idempotent:
  assumes "table_shape T"
  shows "initCrcTable (initCrcTable T) = initCrcTable T \<and>
         swCrc32c (initCrcTable (initCrcTable T)) initialCrc buf bytes =
           swCrc32c (initCrcTable T) initialCrc buf bytes"
  by (simp add: initCrcTable_idem[OF assms])

theorem initCrcTable_idempotent_witness:
  "table_shape crc32cTable_static \<and>
   initCrcTable (initCrcTable crc32cTable_static) = initCrcTable crc32cTable_static \<and>
   swCrc32c (initCrcTable (initCrcTable crc32cTable_static)) 0 0 [1, 2, 3] =
     swCrc32c (initCrcTable crc32cTable_static) 0 0 [1, 2, 3]"
  using initCrcTable_idempotent[OF table_shape_static, of 0 0 "[1, 2, 3]"] table_shape_static
  by simp

text \<open>
  C10. For every call of \<open>swCrc32c\<close> with non-zero length, the upper 32 bits of the 64-bit
  accumulator are zero after the first complement and at the end of every iteration of
  each of the three loops, and the final cast to 32 bits loses nothing: the result,
  zero-extended, is the last accumulator value complemented.
\<close>

theorem swCrc32c_accumulator_32bit:
  assumes "bytes \<noteq> []"
  shows "(\<forall>crc \<in> set (swCrc32c_trace T initialCrc buf bytes). drop_bit 32 crc = 0) \<and>
         swCrc32c_trace T initialCrc buf bytes \<noteq> [] \<and>
         (ucast (swCrc32c T initialCrc buf bytes) :: u64) =
           last (swCrc32c_trace T initialCrc buf bytes) XOR 0xFFFFFFFF"
proof -
  let ?crc0 = "(ucast initialCrc :: u64) XOR 0xFFFFFFFF"
  obtain crc1 bs1 where a: "sw_align_loop T ?crc0 buf bytes = (crc1, bs1)"
    by (cases "sw_align_loop T ?crc0 buf bytes")
  obtain crc2 bs2 where b: "sw_bulk_loop T crc1 bs1 = (crc2, bs2)"
    by (cases "sw_bulk_loop T crc1 bs1")
  let ?t1 = "sw_align_trace T ?crc0 buf bytes"
  let ?t2 = "sw_bulk_trace T crc1 bs1"
  let ?t3 = "sw_tail_trace T crc2 bs2"
  have tr: "swCrc32c_trace T initialCrc buf bytes = ?crc0 # ?t1 @ ?t2 @ ?t3"
    using assms by (simp add: swCrc32c_trace_def a b Let_def)
  have res: "swCrc32c T initialCrc buf bytes = ucast (sw_tail_loop T crc2 bs2 XOR 0xFFFFFFFF)"
    using assms by (simp add: swCrc32c_def a b Let_def)
  have f0: "fits32 ?crc0" unfolding ffff_ucast by (rule fits32_ucast)
  have l1: "last (?crc0 # ?t1) = crc1" using sw_align_trace_last[of ?crc0 T buf bytes] a by simp
  have f1: "fits32 crc1"
    using l1 f0 sw_align_trace_fits[OF f0, of crc1 T buf bytes]
    by (metis last_in_set list.distinct(1) set_ConsD)
  have l2: "last (crc1 # ?t2) = crc2" using sw_bulk_trace_last[of crc1 T bs1] b by simp
  have f2: "fits32 crc2"
    using l2 f1 sw_bulk_trace_fits[of crc2 T crc1 bs1]
    by (metis last_in_set list.distinct(1) set_ConsD)
  have l3: "last (crc2 # ?t3) = sw_tail_loop T crc2 bs2" by (rule sw_tail_trace_last)
  have f3: "fits32 (sw_tail_loop T crc2 bs2)"
    using l3 f2 sw_tail_trace_fits[OF f2, of "sw_tail_loop T crc2 bs2" T bs2]
    by (metis last_in_set list.distinct(1) set_ConsD)
  have lst: "last (swCrc32c_trace T initialCrc buf bytes) = sw_tail_loop T crc2 bs2"
  proof -
    have "last (?crc0 # ?t1 @ ?t2 @ ?t3) = last (crc1 # ?t2 @ ?t3)"
      using last_cons_append[of ?crc0 ?t1 "?t2 @ ?t3"] l1 by simp
    also have "\<dots> = last (crc2 # ?t3)"
      using last_cons_append[of crc1 ?t2 ?t3] l2 by simp
    finally show ?thesis using l3 tr by simp
  qed
  have all: "\<forall>crc \<in> set (swCrc32c_trace T initialCrc buf bytes). fits32 crc"
    unfolding tr
    using f0 sw_align_trace_fits[OF f0] sw_bulk_trace_fits sw_tail_trace_fits[OF f2]
    by auto
  have c1: "\<forall>crc \<in> set (swCrc32c_trace T initialCrc buf bytes). drop_bit 32 crc = 0"
    using all by (simp add: fits32_def)
  have c2: "swCrc32c_trace T initialCrc buf bytes \<noteq> []"
    by (simp add: tr)
  have c3: "(ucast (swCrc32c T initialCrc buf bytes) :: u64) =
      last (swCrc32c_trace T initialCrc buf bytes) XOR 0xFFFFFFFF"
    unfolding res lst by (rule fits32_xor_ffff[OF f3])
  show ?thesis
    using c1 c2 c3 by blast
qed

theorem swCrc32c_accumulator_32bit_witness:
  "ascii ''123456789'' \<noteq> [] \<and>
   drop_bit 32 (hd (swCrc32c_trace crc32cTable_init 0 3 (ascii ''123456789''))) = 0 \<and>
   drop_bit 32 (last (swCrc32c_trace crc32cTable_init 0 3 (ascii ''123456789''))) = 0 \<and>
   swCrc32c_trace crc32cTable_init 0 3 (ascii ''123456789'') \<noteq> [] \<and>
   (ucast (swCrc32c crc32cTable_init 0 3 (ascii ''123456789'')) :: u64) =
      last (swCrc32c_trace crc32cTable_init 0 3 (ascii ''123456789'')) XOR 0xFFFFFFFF"
proof -
  have ne: "ascii ''123456789'' \<noteq> []" by (simp add: ascii_def)
  show ?thesis
    using ne swCrc32c_accumulator_32bit[OF ne, of crc32cTable_init 0 3]
      hd_in_set[of "swCrc32c_trace crc32cTable_init 0 3 (ascii ''123456789'')"]
      last_in_set[of "swCrc32c_trace crc32cTable_init 0 3 (ascii ''123456789'')"]
    by blast
qed

end
